theory Spec2Isabelle
  imports Main "HOL-Library.Word" "HOL-Library.Monad_Syntax"
begin

section \<open>Go values, slices and memory\<close>

text \<open>
  The package \<^verbatim>\<open>bgls\<close> (file \<^verbatim>\<open>blsHAE.go\<close>) implements BLS aggregation with hashed
  aggregation exponents. Its four functions work on Go slices of interface values
  (\<^verbatim>\<open>[]Point1\<close>, \<^verbatim>\<open>[]Point2\<close>) and of pointers (\<^verbatim>\<open>[]*big.Int\<close>).

  A value of an interface or pointer type is either \<^verbatim>\<open>nil\<close> or an object. Calling a
  method on \<^verbatim>\<open>nil\<close> and indexing a slice out of range make the goroutine panic: a
  computation that can panic returns an \<open>option\<close>, and \<open>None\<close> is the panic.
\<close>

type_synonym byte = "8 word"
type_synonym addr = nat

datatype 'a ref = nil | obj 'a

definition deref :: "'a ref \<Rightarrow> 'a option" where
  "deref r = (case r of nil \<Rightarrow> None | obj x \<Rightarrow> Some x)"

definition index :: "'a list \<Rightarrow> nat \<Rightarrow> 'a option" where
  "index xs i = (if i < length xs then Some (xs ! i) else None)"

definition assign :: "'a list \<Rightarrow> nat \<Rightarrow> 'a \<Rightarrow> 'a list option" where
  "assign xs i v = (if i < length xs then Some (xs[i := v]) else None)"

text \<open>
  A slice parameter shares its backing array with the caller, so the arrays of points
  live in a heap: \<open>arr h a\<close> is the array at address \<open>a\<close>, and \<open>brk h\<close> is the first
  address that has not been allocated. A slice is the address of its array. \<open>make_slice\<close> is
  Go's \<^verbatim>\<open>make([]T, n)\<close>: a new array of \<open>n\<close> nil entries at a fresh address.
\<close>

record 'p heap =
  arr :: "addr \<Rightarrow> 'p ref list"
  brk :: addr

definition len :: "'p heap \<Rightarrow> addr \<Rightarrow> nat" where
  "len h a = length (arr h a)"

definition load :: "'p heap \<Rightarrow> addr \<Rightarrow> nat \<Rightarrow> 'p ref option" where
  "load h a i = index (arr h a) i"

definition store :: "'p heap \<Rightarrow> addr \<Rightarrow> nat \<Rightarrow> 'p ref \<Rightarrow> 'p heap option" where
  "store h a i v =
     (if i < length (arr h a) then Some (h\<lparr>arr := (arr h)(a := (arr h a)[i := v])\<rparr>)
      else None)"

definition make_slice :: "nat \<Rightarrow> 'p heap \<Rightarrow> addr \<times> 'p heap" where
  "make_slice n h = (brk h, h\<lparr>arr := (arr h)(brk h := replicate n nil), brk := Suc (brk h)\<rparr>)"

text \<open>
  \<^verbatim>\<open>Point1\<close> and \<^verbatim>\<open>Point2\<close> are different types, so an array of signatures and an
  array of keys never share memory: the memory is one heap of each.
\<close>

record ('p1, 'p2) memory =
  g1 :: "'p1 heap"
  g2 :: "'p2 heap"

section \<open>The external collaborators\<close>

text \<open>
  The curve arithmetic, the pairing checks and the BLAKE2 extendable-output hash are
  imported (\<^verbatim>\<open>curves\<close>, \<^verbatim>\<open>blake2b\<close>, and \<^verbatim>\<open>verifyAggSig\<close>, \<^verbatim>\<open>VerifyMultiSignature\<close>,
  \<^verbatim>\<open>AggregateG1\<close> of the package). They are parameters of the model:
  \<^item> \<open>NewXOF size key\<close> is the stream \<^verbatim>\<open>blake2b.NewXOF\<close> returns, \<open>nil\<close> when it returns an
    error (the caller drops the error);
  \<^item> \<open>Write x bs\<close> is the stream after absorbing \<open>bs\<close>;
  \<^item> \<open>Read x n\<close> is the bytes the stream delivers into a buffer of \<open>n\<close> bytes, and the
    stream afterwards;
  \<^item> \<open>Mul1\<close>, \<open>Mul2\<close> scale a point by an integer and return a new point;
  \<^item> the verifiers and \<open>AggregateG1\<close> are functions of the contents of their slices.
\<close>

record ('p1, 'p2, 'xof, 'curve) env =
  NewXOF :: "32 word \<Rightarrow> byte list \<Rightarrow> 'xof ref"
  Write :: "'xof \<Rightarrow> byte list \<Rightarrow> 'xof"
  Read :: "'xof \<Rightarrow> nat \<Rightarrow> byte list \<times> 'xof"
  MarshalUncompressed :: "'p2 \<Rightarrow> byte list"
  Mul1 :: "'p1 \<Rightarrow> int \<Rightarrow> 'p1"
  Mul2 :: "'p2 \<Rightarrow> int \<Rightarrow> 'p2"
  AggregateG1 :: "'p1 ref list \<Rightarrow> 'p1 ref"
  verifyAggSig :: "'curve \<Rightarrow> 'p1 ref \<Rightarrow> 'p2 ref list \<Rightarrow> byte list list \<Rightarrow> bool \<Rightarrow> bool"
  VerifyMultiSignature :: "'curve \<Rightarrow> 'p1 ref \<Rightarrow> 'p2 ref list \<Rightarrow> byte list \<Rightarrow> bool"

section \<open>hashPubKeysToExponents\<close>

text \<open>
  \<^verbatim>\<open>uint32(16*len(pubkeys))\<close>: the conversion keeps the low 32 bits of the product.
\<close>

definition xofSize :: "nat \<Rightarrow> 32 word" where
  "xofSize n = of_nat (16 * n)"

text \<open>\<^verbatim>\<open>new(big.Int).SetBytes(sum)\<close>: the bytes as a big-endian unsigned integer.\<close>

definition SetBytes :: "byte list \<Rightarrow> int" where
  "SetBytes bs = foldl (\<lambda>acc b. acc * 256 + uint b) 0 bs"

text \<open>
  \<^verbatim>\<open>hashFunc.Read(sum)\<close> can only write into the buffer it is given: the delivered bytes
  replace a prefix of the buffer and the rest keeps its value.
\<close>

definition copy_into :: "byte list \<Rightarrow> byte list \<Rightarrow> byte list" where
  "copy_into buf bs = take (length buf) bs @ drop (length bs) buf"

text \<open>
  The first loop:
  \<^verbatim>\<open>for i := 0; i < len(pubkeys); i++ { hashFunc.Write(pubkeys[i].MarshalUncompressed()) }\<close>
\<close>

function write_loop ::
  "('p1, 'p2, 'xof, 'curve) env \<Rightarrow> 'p2 heap \<Rightarrow> addr \<Rightarrow> 'xof ref \<Rightarrow> nat \<Rightarrow> 'xof ref option"
where
  "write_loop E h pubkeys hashFunc i =
     (if i < len h pubkeys then
        do {
          k \<leftarrow> load h pubkeys i;
          p \<leftarrow> deref k;
          x \<leftarrow> deref hashFunc;
          write_loop E h pubkeys (obj (Write E x (MarshalUncompressed E p))) (Suc i)
        }
      else Some hashFunc)"
  by pat_completeness auto
termination
  by (relation "measure (\<lambda>(E, h, pubkeys, hashFunc, i). len h pubkeys - i)") auto

text \<open>
  The second loop:
  \<^verbatim>\<open>for i := 0; i < len(pubkeys); i++ {
      sum := make([]byte, 16); hashFunc.Read(sum); t[i] = new(big.Int).SetBytes(sum) }\<close>
\<close>

function read_loop ::
  "('p1, 'p2, 'xof, 'curve) env \<Rightarrow> 'p2 heap \<Rightarrow> addr \<Rightarrow> 'xof ref \<Rightarrow> int ref list \<Rightarrow> nat
     \<Rightarrow> int ref list option"
where
  "read_loop E h pubkeys hashFunc t i =
     (if i < len h pubkeys then
        do {
          let sum = replicate 16 (0 :: byte);
          x \<leftarrow> deref hashFunc;
          let (bs, x') = Read E x (length sum);
          let sum = copy_into sum bs;
          t' \<leftarrow> assign t i (obj (SetBytes sum));
          read_loop E h pubkeys (obj x') t' (Suc i)
        }
      else Some t)"
  by pat_completeness auto
termination
  by (relation "measure (\<lambda>(E, h, pubkeys, hashFunc, t, i). len h pubkeys - i)") auto

definition hashPubKeysToExponents ::
  "('p1, 'p2, 'xof, 'curve) env \<Rightarrow> 'p2 heap \<Rightarrow> addr \<Rightarrow> int ref list option"
where
  "hashPubKeysToExponents E h pubkeys =
     do {
       let hashFunc = NewXOF E (xofSize (len h pubkeys)) [];
       hashFunc \<leftarrow> write_loop E h pubkeys hashFunc 0;
       let t = replicate (len h pubkeys) nil;
       read_loop E h pubkeys hashFunc t 0
     }"

section \<open>The three protocol operations\<close>

text \<open>
  The loop of \<^verbatim>\<open>AggregateSignaturesWithHAE\<close>:
  \<^verbatim>\<open>for i := 0; i < len(pubkeys); i++ { newsigs[i] = sigs[i].Mul(t[i]) }\<close>
  The keys are in the other heap, which the loop does not write.
\<close>

function scale_sigs ::
  "('p1, 'p2, 'xof, 'curve) env \<Rightarrow> 'p2 heap \<Rightarrow> addr \<Rightarrow> int ref list \<Rightarrow> addr \<Rightarrow> addr
     \<Rightarrow> 'p1 heap \<Rightarrow> nat \<Rightarrow> 'p1 heap option"
where
  "scale_sigs E h2 pubkeys t sigs newsigs h i =
     (if i < len h2 pubkeys then
        do {
          s \<leftarrow> load h sigs i;
          p \<leftarrow> deref s;
          e \<leftarrow> index t i;
          k \<leftarrow> deref e;
          h' \<leftarrow> store h newsigs i (obj (Mul1 E p k));
          scale_sigs E h2 pubkeys t sigs newsigs h' (Suc i)
        }
      else Some h)"
  by pat_completeness auto
termination
  by (relation "measure (\<lambda>(E, h2, pubkeys, t, sigs, newsigs, h, i). len h2 pubkeys - i)") auto

definition AggregateSignaturesWithHAE ::
  "('p1, 'p2, 'xof, 'curve) env \<Rightarrow> addr \<Rightarrow> addr \<Rightarrow> ('p1, 'p2) memory
     \<Rightarrow> ('p1 ref \<times> ('p1, 'p2) memory) option"
where
  "AggregateSignaturesWithHAE E sigs pubkeys m =
     (if len (g2 m) pubkeys \<noteq> len (g1 m) sigs then Some (nil, m)
      else
        do {
          let (newsigs, h) = make_slice (len (g1 m) sigs) (g1 m);
          t \<leftarrow> hashPubKeysToExponents E (g2 m) pubkeys;
          h' \<leftarrow> scale_sigs E (g2 m) pubkeys t sigs newsigs h 0;
          Some (AggregateG1 E (arr h' newsigs), m\<lparr>g1 := h'\<rparr>)
        })"

text \<open>
  The loop of the two verifiers,
  \<^verbatim>\<open>for i := 0; i < len(pubkeys); i++ { dst[i] = pubkeys[i].Mul(t[i]) }\<close>
  where \<open>dst\<close> is \<^verbatim>\<open>newkeys\<close> in \<^verbatim>\<open>VerifyAggregateSignatureWithHAE\<close> and \<^verbatim>\<open>pubkeys\<close>
  itself in \<^verbatim>\<open>VerifyMultiSignatureWithHAE\<close>.
\<close>

function scale_keys ::
  "('p1, 'p2, 'xof, 'curve) env \<Rightarrow> int ref list \<Rightarrow> addr \<Rightarrow> addr \<Rightarrow> 'p2 heap \<Rightarrow> nat
     \<Rightarrow> 'p2 heap option"
where
  "scale_keys E t pubkeys dst h i =
     (if i < len h pubkeys then
        do {
          s \<leftarrow> load h pubkeys i;
          p \<leftarrow> deref s;
          e \<leftarrow> index t i;
          k \<leftarrow> deref e;
          h' \<leftarrow> store h dst i (obj (Mul2 E p k));
          scale_keys E t pubkeys dst h' (Suc i)
        }
      else Some h)"
  by pat_completeness auto
termination
  by (relation "measure (\<lambda>(E, t, pubkeys, dst, h, i). len h pubkeys - i)")
    (auto simp: store_def len_def split: if_splits)

definition VerifyAggregateSignatureWithHAE ::
  "('p1, 'p2, 'xof, 'curve) env \<Rightarrow> 'curve \<Rightarrow> 'p1 ref \<Rightarrow> addr \<Rightarrow> byte list list
     \<Rightarrow> ('p1, 'p2) memory \<Rightarrow> (bool \<times> ('p1, 'p2) memory) option"
where
  "VerifyAggregateSignatureWithHAE E curve aggsig pubkeys msgs m =
     do {
       t \<leftarrow> hashPubKeysToExponents E (g2 m) pubkeys;
       let (newkeys, h) = make_slice (len (g2 m) pubkeys) (g2 m);
       h' \<leftarrow> scale_keys E t pubkeys newkeys h 0;
       Some (verifyAggSig E curve aggsig (arr h' newkeys) msgs True, m\<lparr>g2 := h'\<rparr>)
     }"

definition VerifyMultiSignatureWithHAE ::
  "('p1, 'p2, 'xof, 'curve) env \<Rightarrow> 'curve \<Rightarrow> 'p1 ref \<Rightarrow> addr \<Rightarrow> byte list
     \<Rightarrow> ('p1, 'p2) memory \<Rightarrow> (bool \<times> ('p1, 'p2) memory) option"
where
  "VerifyMultiSignatureWithHAE E curve aggsig pubkeys msg m =
     do {
       t \<leftarrow> hashPubKeysToExponents E (g2 m) pubkeys;
       h' \<leftarrow> scale_keys E t pubkeys pubkeys (g2 m) 0;
       Some (VerifyMultiSignature E curve aggsig (arr h' pubkeys) msg, m\<lparr>g2 := h'\<rparr>)
     }"

section \<open>The derivation as the specification describes it\<close>

text \<open>
  The specification describes the derivation in three steps: a stream seeded for
  \<open>16 * n\<close> bytes; the encodings of key 0 to key \<open>n - 1\<close> fed to it in order with nothing
  between them; the output read in 16-byte chunks, chunk \<open>i\<close> read as a big-endian
  integer. \<open>absorb\<close> is the second step, \<open>chunks\<close> the third (a chunk is the 16-byte
  buffer after one read), and \<open>exponents\<close> the result for the seeded stream \<open>x0\<close>.
\<close>

definition absorb :: "('p1, 'p2, 'xof, 'curve) env \<Rightarrow> 'xof \<Rightarrow> 'p2 list \<Rightarrow> 'xof" where
  "absorb E x ks = foldl (\<lambda>y k. Write E y (MarshalUncompressed E k)) x ks"

primrec chunks :: "('p1, 'p2, 'xof, 'curve) env \<Rightarrow> 'xof \<Rightarrow> nat \<Rightarrow> byte list list" where
  "chunks E x 0 = []"
| "chunks E x (Suc n) =
     copy_into (replicate 16 0) (fst (Read E x 16)) # chunks E (snd (Read E x 16)) n"

definition exponents :: "('p1, 'p2, 'xof, 'curve) env \<Rightarrow> 'xof \<Rightarrow> 'p2 list \<Rightarrow> int list" where
  "exponents E x0 ks = map SetBytes (chunks E (absorb E x0 ks) (length ks))"

text \<open>The keys and the signatures scaled by a list of exponents, index by index.\<close>

definition scaled_keys :: "('p1, 'p2, 'xof, 'curve) env \<Rightarrow> 'p2 list \<Rightarrow> int list \<Rightarrow> 'p2 ref list" where
  "scaled_keys E ks es = map2 (\<lambda>k e. obj (Mul2 E k e)) ks es"

definition scaled_sigs :: "('p1, 'p2, 'xof, 'curve) env \<Rightarrow> 'p1 list \<Rightarrow> int list \<Rightarrow> 'p1 ref list" where
  "scaled_sigs E ss es = map2 (\<lambda>s e. obj (Mul1 E s e)) ss es"

section \<open>The pairing check behind the verifier\<close>

text \<open>
  The pairing operations the verifier is built from: the pairing, the hash of a message
  to the signature group, the generator of the key group, the product of a list in the
  target group, a power in the target group, and the sum of a list in the signature
  group.
\<close>

record ('p1, 'p2, 'gt) pairing =
  Pair :: "'p1 \<Rightarrow> 'p2 \<Rightarrow> 'gt"
  HashToG1 :: "byte list \<Rightarrow> 'p1"
  G2gen :: "'p2"
  GTprod :: "'gt list \<Rightarrow> 'gt"
  GTpow :: "'gt \<Rightarrow> int \<Rightarrow> 'gt"
  G1sum :: "'p1 list \<Rightarrow> 'p1"

fun points :: "'p ref list \<Rightarrow> 'p list option" where
  "points [] = Some []"
| "points (nil # rs) = None"
| "points (obj p # rs) = map_option ((#) p) (points rs)"

text \<open>
  Modelled from the spec: \<^verbatim>\<open>verifyAggSig\<close> is not in \<^verbatim>\<open>blsHAE.go\<close>. The specification
  says that the aggregate-verification primitive checks a single combined pairing
  equation across all index-aligned (key, message) pairs and returns true iff it holds
  exactly, and that a length mismatch is a failure. Its last parameter permits
  duplicate messages.
\<close>

definition verifyAggSig_spec ::
  "('p1, 'p2, 'gt) pairing \<Rightarrow> 'p1 ref \<Rightarrow> 'p2 ref list \<Rightarrow> byte list list \<Rightarrow> bool \<Rightarrow> bool"
where
  "verifyAggSig_spec P aggsig keys msgs allowDuplicates =
     (case (aggsig, points keys) of
        (obj s, Some ks) \<Rightarrow>
          length ks = length msgs \<and> (allowDuplicates \<or> distinct msgs) \<and>
          Pair P s (G2gen P) = GTprod P (map2 (\<lambda>k m. Pair P (HashToG1 P m) k) ks msgs)
      | _ \<Rightarrow> False)"

text \<open>
  Modelled from the spec: a signature is valid under plain BLS for a key and a message
  when the pairing of the signature with the generator equals the pairing of the hashed
  message with the key.
\<close>

definition bls_valid :: "('p1, 'p2, 'gt) pairing \<Rightarrow> 'p1 \<Rightarrow> 'p2 \<Rightarrow> byte list \<Rightarrow> bool" where
  "bls_valid P s k msg \<longleftrightarrow> Pair P s (G2gen P) = Pair P (HashToG1 P msg) k"

text \<open>
  What the protocol operations need from the collaborators: the pairing is bilinear
  (it turns sums and scalings of either argument into products and powers of the
  target group), \<open>AggregateG1\<close> is the group sum, and \<open>verifyAggSig\<close> is the pairing check.
\<close>

definition bilinear ::
  "('p1, 'p2, 'gt) pairing \<Rightarrow> ('p1, 'p2, 'xof, 'curve) env \<Rightarrow> bool"
where
  "bilinear P E \<longleftrightarrow>
     (\<forall>ss. AggregateG1 E (map obj ss) = obj (G1sum P ss)) \<and>
     (\<forall>ss q. Pair P (G1sum P ss) q = GTprod P (map (\<lambda>s. Pair P s q) ss)) \<and>
     (\<forall>s e q. Pair P (Mul1 E s e) q = GTpow P (Pair P s q) e) \<and>
     (\<forall>s q e. Pair P s (Mul2 E q e) = GTpow P (Pair P s q) e) \<and>
     (\<forall>c a ks ms d. verifyAggSig E c a ks ms d = verifyAggSig_spec P a ks ms d)"

section \<open>A small instance\<close>

text \<open>
  An instance on which the definitions can be run. Both groups and the target group are
  the integers under addition, the pairing is the product (which is bilinear), and the
  generator is 1. The stream delivers at most as many bytes as it was seeded for; the
  last byte of its \<open>i\<close>-th 16-byte block is the sum of the absorbed bytes, the seed and
  \<open>i\<close>, and the other bytes are 0, so that the exponents are small numbers.
\<close>

record toy_xof =
  remaining :: nat
  seed :: "32 word"
  absorbed :: "byte list"
  pos :: nat

definition toy_NewXOF :: "32 word \<Rightarrow> byte list \<Rightarrow> toy_xof ref" where
  "toy_NewXOF sz key =
     (if 64 < length key \<or> sz = - 1 then nil
      else obj \<lparr>remaining = (if sz = 0 then 2 ^ 38 else unat sz), seed = sz,
                absorbed = [], pos = 0\<rparr>)"

definition toy_Write :: "toy_xof \<Rightarrow> byte list \<Rightarrow> toy_xof" where
  "toy_Write x bs = x\<lparr>absorbed := absorbed x @ bs\<rparr>"

definition toy_byte :: "toy_xof \<Rightarrow> nat \<Rightarrow> byte" where
  "toy_byte x j =
     (if j mod 16 = 15 then of_nat (sum_list (map unat (absorbed x)) + unat (seed x) + j div 16)
      else 0)"

definition toy_Read :: "toy_xof \<Rightarrow> nat \<Rightarrow> byte list \<times> toy_xof" where
  "toy_Read x n =
     (map (toy_byte x) [pos x ..< pos x + min n (remaining x)],
      x\<lparr>remaining := remaining x - min n (remaining x), pos := pos x + min n (remaining x)\<rparr>)"

definition toy_pairing :: "(int, int, int) pairing" where
  "toy_pairing =
     \<lparr>Pair = (\<lambda>a b. a * b), HashToG1 = (\<lambda>msg. 1 + SetBytes msg), G2gen = 1,
      GTprod = sum_list, GTpow = (\<lambda>g e. e * g), G1sum = sum_list\<rparr>"

definition toy :: "(int, int, toy_xof, unit) env" where
  "toy =
     \<lparr>NewXOF = toy_NewXOF, Write = toy_Write, Read = toy_Read,
      MarshalUncompressed = (\<lambda>k. [of_int k]),
      Mul1 = (\<lambda>p e. e * p), Mul2 = (\<lambda>p e. e * p),
      AggregateG1 = (\<lambda>rs. case points rs of None \<Rightarrow> nil | Some ps \<Rightarrow> obj (sum_list ps)),
      verifyAggSig = (\<lambda>c. verifyAggSig_spec toy_pairing),
      VerifyMultiSignature =
        (\<lambda>c a ks msg. verifyAggSig_spec toy_pairing a ks (replicate (length ks) msg) True)\<rparr>"

text \<open>A memory with one array of each kind at address 0.\<close>

definition heap_of :: "'p list \<Rightarrow> 'p heap" where
  "heap_of ps = \<lparr>arr = (\<lambda>a. []) (0 := map obj ps), brk = 1\<rparr>"

definition memory_of :: "'p1 list \<Rightarrow> 'p2 list \<Rightarrow> ('p1, 'p2) memory" where
  "memory_of ss ks = \<lparr>g1 = heap_of ss, g2 = heap_of ks\<rparr>"

section \<open>Observing a call\<close>

text \<open>
  A call returns a result and the memory after it, or panics. \<open>returned\<close> is the result,
  \<open>keys_after a\<close> and \<open>sigs_after a\<close> are the arrays at address \<open>a\<close> after the call.
  \<open>toy_stream n\<close> is the stream of the small instance seeded for \<open>n\<close> bytes.
\<close>

definition returned :: "('r \<times> 'm) option \<Rightarrow> 'r option" where
  "returned c = map_option fst c"

definition keys_after :: "addr \<Rightarrow> ('r \<times> ('p1, 'p2) memory) option \<Rightarrow> 'p2 ref list option" where
  "keys_after a c = map_option (\<lambda>rm. arr (g2 (snd rm)) a) c"

definition sigs_after :: "addr \<Rightarrow> ('r \<times> ('p1, 'p2) memory) option \<Rightarrow> 'p1 ref list option" where
  "sigs_after a c = map_option (\<lambda>rm. arr (g1 (snd rm)) a) c"

definition toy_stream :: "nat \<Rightarrow> toy_xof" where
  "toy_stream n = \<lparr>remaining = n, seed = of_nat n, absorbed = [], pos = 0\<rparr>"

text \<open>
  A caller that aggregates and then verifies with the same slices, and a caller that
  verifies one multi-signature twice with the same slice of keys.
\<close>

definition aggregate_then_verify ::
  "('p1, 'p2, 'xof, 'curve) env \<Rightarrow> 'curve \<Rightarrow> addr \<Rightarrow> addr \<Rightarrow> byte list list
     \<Rightarrow> ('p1, 'p2) memory \<Rightarrow> bool option"
where
  "aggregate_then_verify E curve sigs pubkeys msgs m =
     do {
       (aggsig, m1) \<leftarrow> AggregateSignaturesWithHAE E sigs pubkeys m;
       (b, m2) \<leftarrow> VerifyAggregateSignatureWithHAE E curve aggsig pubkeys msgs m1;
       Some b
     }"

definition verify_multi_twice ::
  "('p1, 'p2, 'xof, 'curve) env \<Rightarrow> 'curve \<Rightarrow> 'p1 ref \<Rightarrow> addr \<Rightarrow> byte list
     \<Rightarrow> ('p1, 'p2) memory \<Rightarrow> (bool \<times> bool) option"
where
  "verify_multi_twice E curve aggsig pubkeys msg m =
     do {
       (b1, m1) \<leftarrow> VerifyMultiSignatureWithHAE E curve aggsig pubkeys msg m;
       (b2, m2) \<leftarrow> VerifyMultiSignatureWithHAE E curve aggsig pubkeys msg m1;
       Some (b1, b2)
     }"

text \<open>A sequence of \<open>2 ^ 28 + 1\<close> keys of the small instance, all equal.\<close>

definition many_keys :: "int list" where
  "many_keys = replicate 268435457 0"

section \<open>The loops of the derivation\<close>

declare write_loop.simps [simp del] read_loop.simps [simp del] scale_sigs.simps [simp del]
  scale_keys.simps [simp del]

lemma write_loop_absorb:
  assumes "arr h pubkeys = map obj ks"
  shows "i \<le> length ks \<Longrightarrow>
    write_loop E h pubkeys (obj x) i = Some (obj (absorb E x (drop i ks)))"
proof (induction "length ks - i" arbitrary: i x)
  case 0
  then show ?case
    using assms by (simp add: write_loop.simps [of E h pubkeys "obj x" i] len_def absorb_def)
next
  case (Suc d)
  then have lt: "i < length ks" by simp
  have step: "write_loop E h pubkeys (obj (Write E x (MarshalUncompressed E (ks ! i)))) (Suc i)
      = Some (obj (absorb E (Write E x (MarshalUncompressed E (ks ! i))) (drop (Suc i) ks)))"
    using Suc lt by (intro Suc.hyps(1)) simp_all
  have "drop i ks = ks ! i # drop (Suc i) ks"
    using lt by (simp add: Cons_nth_drop_Suc)
  then show ?case
    using assms lt step
    by (simp add: write_loop.simps [of E h pubkeys "obj x" i] len_def load_def index_def
        deref_def absorb_def)
qed

lemma length_copy_into: "length (copy_into buf bs) = length buf"
  by (simp add: copy_into_def)

lemma read_loop_chunks:
  assumes "len h pubkeys = n"
  shows "length t = n \<Longrightarrow> i \<le> n \<Longrightarrow>
    read_loop E h pubkeys (obj x) t i
      = Some (take i t @ map (\<lambda>c. obj (SetBytes c)) (chunks E x (n - i)))"
proof (induction "n - i" arbitrary: i x t)
  case 0
  then show ?case
    using assms by (simp add: read_loop.simps [of E h pubkeys "obj x" t i])
next
  case (Suc d)
  then have lt: "i < n" by simp
  then have n: "n - i = Suc (n - Suc i)" by simp
  let ?c = "copy_into (replicate 16 0) (fst (Read E x 16))"
  let ?t = "t[i := obj (SetBytes ?c)]"
  have step: "read_loop E h pubkeys (obj (snd (Read E x 16))) ?t (Suc i)
      = Some (take (Suc i) ?t @ map (\<lambda>c. obj (SetBytes c)) (chunks E (snd (Read E x 16)) (n - Suc i)))"
    using Suc lt by (intro Suc.hyps(1)) simp_all
  have "take (Suc i) ?t = take i t @ [obj (SetBytes ?c)]"
    using lt Suc.prems by (simp add: take_Suc_conv_app_nth)
  then show ?case
    using assms lt step Suc.prems
    by (simp add: read_loop.simps [of E h pubkeys "obj x" t i] n deref_def assign_def
        split_beta)
qed

lemma hash_exponents:
  assumes "arr h pubkeys = map obj ks" and "NewXOF E (xofSize (length ks)) [] = obj x0"
  shows "hashPubKeysToExponents E h pubkeys = Some (map obj (exponents E x0 ks))"
  using assms write_loop_absorb [OF assms(1), of 0 E x0]
    read_loop_chunks [of h pubkeys "length ks" "replicate (length ks) nil" 0 E "absorb E x0 ks"]
  by (simp add: hashPubKeysToExponents_def len_def exponents_def)

lemma hash_empty:
  "len h pubkeys = 0 \<Longrightarrow> hashPubKeysToExponents E h pubkeys = Some []"
  by (simp add: hashPubKeysToExponents_def write_loop.simps [of E h pubkeys _ 0]
      read_loop.simps [of E h pubkeys _ _ 0])

lemma len_heap_of: "len (heap_of ps) 0 = length ps"
  by (simp add: heap_of_def len_def)

section \<open>The range of the exponents\<close>

lemma SetBytes_foldl_bounds:
  "0 \<le> a \<Longrightarrow> a < 256 ^ m \<Longrightarrow>
     0 \<le> foldl (\<lambda>acc b. acc * 256 + uint (b :: byte)) a bs \<and>
     foldl (\<lambda>acc b. acc * 256 + uint b) a bs < 256 ^ (m + length bs)"
proof (induction bs arbitrary: a m)
  case Nil
  then show ?case by simp
next
  case (Cons b bs)
  have b: "0 \<le> uint b" "uint b < 256"
    using uint_bounded [of b] by simp_all
  have lo: "0 \<le> a * 256 + uint b" using Cons.prems b by simp
  have "a + 1 \<le> 256 ^ m" using Cons.prems by simp
  then have "(a + 1) * 256 \<le> 256 ^ m * 256" by (rule mult_right_mono) simp
  then have hi: "a * 256 + uint b < 256 ^ Suc m" using b by (simp add: algebra_simps)
  show ?case
    using Cons.IH [OF lo hi] by simp
qed

lemma SetBytes_bounds: "0 \<le> SetBytes bs \<and> SetBytes bs < 256 ^ length bs"
  using SetBytes_foldl_bounds [of 0 0 bs] by (simp add: SetBytes_def)

lemma length_chunks: "length (chunks E x n) = n"
  by (induction n arbitrary: x) simp_all

lemma chunks_16: "c \<in> set (chunks E x n) \<Longrightarrow> length c = 16"
  by (induction n arbitrary: x) (auto simp: length_copy_into)

lemma exponents_range:
  "e \<in> set (exponents E x0 ks) \<Longrightarrow> 0 \<le> e \<and> e < 2 ^ 128"
proof -
  assume "e \<in> set (exponents E x0 ks)"
  then obtain c where c: "c \<in> set (chunks E (absorb E x0 ks) (length ks))" and e: "e = SetBytes c"
    by (auto simp: exponents_def)
  have "length c = 16" using c by (rule chunks_16)
  then show ?thesis
    using SetBytes_bounds [of c] e by simp
qed

lemma length_exponents: "length (exponents E x0 ks) = length ks"
  by (simp add: exponents_def length_chunks)

section \<open>What the scaling loops write\<close>

lemma scale_keys_frame:
  "scale_keys E t pubkeys dst h i = Some h' \<Longrightarrow>
     brk h' = brk h \<and> (\<forall>a. a \<noteq> dst \<longrightarrow> arr h' a = arr h a)"
proof (induction E t pubkeys dst h i rule: scale_keys.induct)
  case (1 E t pubkeys dst h i)
  show ?case
  proof (cases "i < len h pubkeys")
    case False
    then show ?thesis using "1.prems" by (simp add: scale_keys.simps [of E t pubkeys dst h i])
  next
    case True
    from "1.prems" True obtain s p e k h1 where
      s: "load h pubkeys i = Some s" and p: "deref s = Some p" and
      e: "index t i = Some e" and k: "deref e = Some k" and
      h1: "store h dst i (obj (Mul2 E p k)) = Some h1" and
      r: "scale_keys E t pubkeys dst h1 (Suc i) = Some h'"
      by (auto simp: scale_keys.simps [of E t pubkeys dst h i] split: bind_splits)
    have ih: "brk h' = brk h1 \<and> (\<forall>a. a \<noteq> dst \<longrightarrow> arr h' a = arr h1 a)"
      by (rule "1.IH" [OF True s p e k h1 r])
    have "brk h1 = brk h \<and> (\<forall>a. a \<noteq> dst \<longrightarrow> arr h1 a = arr h a)"
      using h1 by (auto simp: store_def split: if_splits)
    with ih show ?thesis by simp
  qed
qed

lemma scale_sigs_frame:
  "scale_sigs E h2 pubkeys t sigs newsigs h i = Some h' \<Longrightarrow>
     brk h' = brk h \<and> (\<forall>a. a \<noteq> newsigs \<longrightarrow> arr h' a = arr h a)"
proof (induction E h2 pubkeys t sigs newsigs h i rule: scale_sigs.induct)
  case (1 E h2 pubkeys t sigs newsigs h i)
  show ?case
  proof (cases "i < len h2 pubkeys")
    case False
    then show ?thesis
      using "1.prems" by (simp add: scale_sigs.simps [of E h2 pubkeys t sigs newsigs h i])
  next
    case True
    from "1.prems" True obtain s p e k h1 where
      s: "load h sigs i = Some s" and p: "deref s = Some p" and
      e: "index t i = Some e" and k: "deref e = Some k" and
      h1: "store h newsigs i (obj (Mul1 E p k)) = Some h1" and
      r: "scale_sigs E h2 pubkeys t sigs newsigs h1 (Suc i) = Some h'"
      by (auto simp: scale_sigs.simps [of E h2 pubkeys t sigs newsigs h i] split: bind_splits)
    have ih: "brk h' = brk h1 \<and> (\<forall>a. a \<noteq> newsigs \<longrightarrow> arr h' a = arr h1 a)"
      by (rule "1.IH" [OF True s p e k h1 r])
    have "brk h1 = brk h \<and> (\<forall>a. a \<noteq> newsigs \<longrightarrow> arr h1 a = arr h a)"
      using h1 by (auto simp: store_def split: if_splits)
    with ih show ?thesis by simp
  qed
qed

lemma drop_eq_step:
  assumes "drop i xs = drop i ys" "i < length xs" "length xs = length ys"
  shows "xs ! i = ys ! i \<and> drop (Suc i) xs = drop (Suc i) ys"
proof -
  have "xs ! i # drop (Suc i) xs = ys ! i # drop (Suc i) ys"
    using assms by (simp add: Cons_nth_drop_Suc)
  then show ?thesis by simp
qed

lemma length_scaled_keys: "length es = length ks \<Longrightarrow> length (scaled_keys E ks es) = length ks"
  by (simp add: scaled_keys_def)

lemma nth_scaled_keys:
  "i < length ks \<Longrightarrow> length es = length ks \<Longrightarrow>
     scaled_keys E ks es ! i = obj (Mul2 E (ks ! i) (es ! i))"
  by (simp add: scaled_keys_def)

lemma length_scaled_sigs: "length es = length ss \<Longrightarrow> length (scaled_sigs E ss es) = length ss"
  by (simp add: scaled_sigs_def)

lemma nth_scaled_sigs:
  "i < length ss \<Longrightarrow> length es = length ss \<Longrightarrow>
     scaled_sigs E ss es ! i = obj (Mul1 E (ss ! i) (es ! i))"
  by (simp add: scaled_sigs_def)

lemma scale_keys_result:
  assumes es: "length es = length ks"
  shows "length (arr h pubkeys) = length ks \<Longrightarrow> drop i (arr h pubkeys) = drop i (map obj ks) \<Longrightarrow>
     length (arr h dst) = length ks \<Longrightarrow> i \<le> length ks \<Longrightarrow>
     scale_keys E (map obj es) pubkeys dst h i
       = Some (h\<lparr>arr := (arr h)(dst := take i (arr h dst) @ drop i (scaled_keys E ks es))\<rparr>)"
proof (induction "length ks - i" arbitrary: i h)
  case 0
  then have "(arr h)(dst := take i (arr h dst) @ drop i (scaled_keys E ks es)) = arr h"
    using es by (simp add: length_scaled_keys)
  then show ?case
    using 0 by (simp add: scale_keys.simps [of E _ pubkeys dst h i] len_def)
next
  case (Suc d)
  then have lt: "i < length ks" by simp
  let ?v = "obj (Mul2 E (ks ! i) (es ! i))"
  let ?h = "h\<lparr>arr := (arr h)(dst := (arr h dst)[i := ?v])\<rparr>"
  have src: "arr h pubkeys ! i = obj (ks ! i)"
    and rest: "drop (Suc i) (arr h pubkeys) = drop (Suc i) (map obj ks)"
    using drop_eq_step [of i "arr h pubkeys" "map obj ks"] Suc.prems lt by simp_all
  have rest': "drop (Suc i) (arr ?h pubkeys) = drop (Suc i) (map obj ks)"
    using rest by (cases "pubkeys = dst") (simp_all add: drop_update_cancel)
  have step: "scale_keys E (map obj es) pubkeys dst ?h (Suc i)
      = Some (?h\<lparr>arr := (arr ?h)(dst := take (Suc i) (arr ?h dst) @ drop (Suc i) (scaled_keys E ks es))\<rparr>)"
    using Suc lt rest' by (intro Suc.hyps(1)) simp_all
  have tk: "take (Suc i) ((arr h dst)[i := ?v]) = take i (arr h dst) @ [?v]"
    using lt Suc.prems by (simp add: take_Suc_conv_app_nth)
  have dr: "drop i (scaled_keys E ks es) = ?v # drop (Suc i) (scaled_keys E ks es)"
    using lt es by (simp add: Cons_nth_drop_Suc [symmetric] length_scaled_keys nth_scaled_keys)
  show ?case
    using lt es Suc.prems src step tk dr
    by (simp add: scale_keys.simps [of E _ pubkeys dst h i] len_def load_def index_def
        deref_def store_def)
qed

lemma scale_sigs_result:
  assumes es: "length es = length ss" and n: "len h2 pubkeys = length ss"
    and ne: "newsigs \<noteq> sigs"
  shows "arr h sigs = map obj ss \<Longrightarrow>
     length (arr h newsigs) = length ss \<Longrightarrow> i \<le> length ss \<Longrightarrow>
     scale_sigs E h2 pubkeys (map obj es) sigs newsigs h i
       = Some (h\<lparr>arr := (arr h)(newsigs := take i (arr h newsigs) @ drop i (scaled_sigs E ss es))\<rparr>)"
proof (induction "length ss - i" arbitrary: i h)
  case 0
  then have "(arr h)(newsigs := take i (arr h newsigs) @ drop i (scaled_sigs E ss es)) = arr h"
    using es by (simp add: length_scaled_sigs)
  then show ?case
    using 0 n by (simp add: scale_sigs.simps [of E h2 pubkeys _ sigs newsigs h i])
next
  case (Suc d)
  then have lt: "i < length ss" by simp
  let ?v = "obj (Mul1 E (ss ! i) (es ! i))"
  let ?h = "h\<lparr>arr := (arr h)(newsigs := (arr h newsigs)[i := ?v])\<rparr>"
  have step: "scale_sigs E h2 pubkeys (map obj es) sigs newsigs ?h (Suc i)
      = Some (?h\<lparr>arr := (arr ?h)(newsigs := take (Suc i) (arr ?h newsigs) @ drop (Suc i) (scaled_sigs E ss es))\<rparr>)"
    using Suc lt ne by (intro Suc.hyps(1)) simp_all
  have tk: "take (Suc i) ((arr h newsigs)[i := ?v]) = take i (arr h newsigs) @ [?v]"
    using lt Suc.prems by (simp add: take_Suc_conv_app_nth)
  have dr: "drop i (scaled_sigs E ss es) = ?v # drop (Suc i) (scaled_sigs E ss es)"
    using lt es by (simp add: Cons_nth_drop_Suc [symmetric] length_scaled_sigs nth_scaled_sigs)
  show ?case
    using lt es n Suc.prems step tk dr
    by (simp add: scale_sigs.simps [of E h2 pubkeys _ sigs newsigs h i] load_def index_def
        deref_def store_def)
qed

section \<open>The three operations on well-formed memory\<close>

lemma aggregate_result:
  assumes ss: "arr (g1 m) sigs = map obj ss" and ks: "arr (g2 m) pubkeys = map obj ks"
    and n: "length ss = length ks" and al: "sigs < brk (g1 m)"
    and x0: "NewXOF E (xofSize (length ks)) [] = obj x0"
  shows "AggregateSignaturesWithHAE E sigs pubkeys m
     = Some (AggregateG1 E (scaled_sigs E ss (exponents E x0 ks)),
         m\<lparr>g1 := (g1 m)\<lparr>arr := (arr (g1 m))(brk (g1 m) := scaled_sigs E ss (exponents E x0 ks)),
                         brk := Suc (brk (g1 m))\<rparr>\<rparr>)"
proof -
  let ?es = "exponents E x0 ks"
  let ?new = "brk (g1 m)"
  let ?h = "(g1 m)\<lparr>arr := (arr (g1 m))(?new := replicate (length ss) nil), brk := Suc ?new\<rparr>"
  have es: "length ?es = length ss" using n by (simp add: length_exponents)
  have hash: "hashPubKeysToExponents E (g2 m) pubkeys = Some (map obj ?es)"
    using ks x0 by (rule hash_exponents)
  have ne: "?new \<noteq> sigs" using al by simp
  have "scale_sigs E (g2 m) pubkeys (map obj ?es) sigs ?new ?h 0
      = Some (?h\<lparr>arr := (arr ?h)(?new := take 0 (arr ?h ?new) @ drop 0 (scaled_sigs E ss ?es))\<rparr>)"
    using ss ks n ne by (intro scale_sigs_result [OF es]) (simp_all add: len_def)
  then show ?thesis
    using ss ks n hash
    by (simp add: AggregateSignaturesWithHAE_def len_def make_slice_def)
qed

lemma verify_aggregate_result:
  assumes ks: "arr (g2 m) pubkeys = map obj ks" and al: "pubkeys < brk (g2 m)"
    and x0: "NewXOF E (xofSize (length ks)) [] = obj x0"
  shows "VerifyAggregateSignatureWithHAE E curve aggsig pubkeys msgs m
     = Some (verifyAggSig E curve aggsig (scaled_keys E ks (exponents E x0 ks)) msgs True,
         m\<lparr>g2 := (g2 m)\<lparr>arr := (arr (g2 m))(brk (g2 m) := scaled_keys E ks (exponents E x0 ks)),
                         brk := Suc (brk (g2 m))\<rparr>\<rparr>)"
proof -
  let ?es = "exponents E x0 ks"
  let ?new = "brk (g2 m)"
  let ?h = "(g2 m)\<lparr>arr := (arr (g2 m))(?new := replicate (length ks) nil), brk := Suc ?new\<rparr>"
  have es: "length ?es = length ks" by (simp add: length_exponents)
  have hash: "hashPubKeysToExponents E (g2 m) pubkeys = Some (map obj ?es)"
    using ks x0 by (rule hash_exponents)
  have ne: "?new \<noteq> pubkeys" using al by simp
  have "scale_keys E (map obj ?es) pubkeys ?new ?h 0
      = Some (?h\<lparr>arr := (arr ?h)(?new := take 0 (arr ?h ?new) @ drop 0 (scaled_keys E ks ?es))\<rparr>)"
    using ks ne by (intro scale_keys_result [OF es]) simp_all
  then show ?thesis
    using ks hash
    by (simp add: VerifyAggregateSignatureWithHAE_def len_def make_slice_def)
qed

lemma verify_multi_result:
  assumes ks: "arr (g2 m) pubkeys = map obj ks"
    and x0: "NewXOF E (xofSize (length ks)) [] = obj x0"
  shows "VerifyMultiSignatureWithHAE E curve aggsig pubkeys msg m
     = Some (VerifyMultiSignature E curve aggsig (scaled_keys E ks (exponents E x0 ks)) msg,
         m\<lparr>g2 := (g2 m)\<lparr>arr := (arr (g2 m))(pubkeys := scaled_keys E ks (exponents E x0 ks))\<rparr>\<rparr>)"
proof -
  let ?es = "exponents E x0 ks"
  have es: "length ?es = length ks" by (simp add: length_exponents)
  have hash: "hashPubKeysToExponents E (g2 m) pubkeys = Some (map obj ?es)"
    using ks x0 by (rule hash_exponents)
  have "scale_keys E (map obj ?es) pubkeys pubkeys (g2 m) 0
      = Some ((g2 m)\<lparr>arr := (arr (g2 m))(pubkeys := take 0 (arr (g2 m) pubkeys) @ drop 0 (scaled_keys E ks ?es))\<rparr>)"
    using ks by (intro scale_keys_result [OF es]) simp_all
  then show ?thesis
    using hash by (simp add: VerifyMultiSignatureWithHAE_def)
qed

lemma verify_aggregate_frame:
  assumes "VerifyAggregateSignatureWithHAE E curve aggsig pubkeys msgs m = Some (b, m')"
  shows "g1 m' = g1 m \<and> brk (g2 m') = Suc (brk (g2 m)) \<and>
     (\<forall>a. a \<noteq> brk (g2 m) \<longrightarrow> arr (g2 m') a = arr (g2 m) a) \<and>
     b = verifyAggSig E curve aggsig (arr (g2 m') (brk (g2 m))) msgs True"
proof -
  from assms obtain t h' where
    h': "scale_keys E t pubkeys (brk (g2 m))
           ((g2 m)\<lparr>arr := (arr (g2 m))(brk (g2 m) := replicate (len (g2 m) pubkeys) nil),
                    brk := Suc (brk (g2 m))\<rparr>) 0 = Some h'"
    and b: "b = verifyAggSig E curve aggsig (arr h' (brk (g2 m))) msgs True"
    and m': "m' = m\<lparr>g2 := h'\<rparr>"
    by (auto simp: VerifyAggregateSignatureWithHAE_def make_slice_def split: bind_splits)
  from scale_keys_frame [OF h'] b m' show ?thesis by simp
qed

lemma aggregate_frame:
  assumes "AggregateSignaturesWithHAE E sigs pubkeys m = Some (r, m')"
  shows "g2 m' = g2 m \<and> (\<forall>a. a \<noteq> brk (g1 m) \<longrightarrow> arr (g1 m') a = arr (g1 m) a)"
proof (cases "len (g2 m) pubkeys \<noteq> len (g1 m) sigs")
  case True
  then show ?thesis using assms by (simp add: AggregateSignaturesWithHAE_def)
next
  case False
  with assms obtain t h' where
    h': "scale_sigs E (g2 m) pubkeys t sigs (brk (g1 m))
           ((g1 m)\<lparr>arr := (arr (g1 m))(brk (g1 m) := replicate (len (g1 m) sigs) nil),
                    brk := Suc (brk (g1 m))\<rparr>) 0 = Some h'"
    and m': "m' = m\<lparr>g1 := h'\<rparr>"
    by (auto simp: AggregateSignaturesWithHAE_def make_slice_def split: bind_splits)
  from scale_sigs_frame [OF h'] m' show ?thesis by simp
qed

lemma aggregate_mismatch:
  "len (g1 m) sigs \<noteq> len (g2 m) pubkeys \<Longrightarrow>
     AggregateSignaturesWithHAE E sigs pubkeys m = Some (nil, m)"
  by (auto simp: AggregateSignaturesWithHAE_def)

section \<open>What the derivation depends on\<close>

lemma write_loop_cong:
  assumes eq: "arr h pubkeys = arr h' pubkeys'"
  shows "write_loop E h pubkeys x i = write_loop E h' pubkeys' x i"
proof (induction "len h pubkeys - i" arbitrary: i x)
  case 0
  then show ?case
    using eq by (subst write_loop.simps, subst (2) write_loop.simps) (simp add: len_def)
next
  case (Suc d)
  then have "\<And>y. write_loop E h pubkeys y (Suc i) = write_loop E h' pubkeys' y (Suc i)"
    by (intro Suc.hyps(1)) simp
  then show ?case
    using eq by (subst write_loop.simps, subst (2) write_loop.simps) (simp add: len_def load_def)
qed

lemma read_loop_cong:
  assumes eq: "arr h pubkeys = arr h' pubkeys'"
  shows "read_loop E h pubkeys x t i = read_loop E h' pubkeys' x t i"
proof (induction "len h pubkeys - i" arbitrary: i x t)
  case 0
  then show ?case
    using eq by (subst read_loop.simps, subst (2) read_loop.simps) (simp add: len_def)
next
  case (Suc d)
  then have "\<And>y u. read_loop E h pubkeys y u (Suc i) = read_loop E h' pubkeys' y u (Suc i)"
    by (intro Suc.hyps(1)) simp
  then show ?case
    using eq by (subst read_loop.simps, subst (2) read_loop.simps) (simp add: len_def)
qed

lemma hash_cong:
  assumes eq: "arr h pubkeys = arr h' pubkeys'"
  shows "hashPubKeysToExponents E h pubkeys = hashPubKeysToExponents E h' pubkeys'"
proof -
  have w: "write_loop E h pubkeys = write_loop E h' pubkeys'"
    by (intro ext) (rule write_loop_cong [OF eq])
  have r: "read_loop E h pubkeys = read_loop E h' pubkeys'"
    by (intro ext) (rule read_loop_cong [OF eq])
  show ?thesis
    using eq by (simp add: hashPubKeysToExponents_def len_def w r)
qed

lemma write_loop_verifier:
  "write_loop (E\<lparr>verifyAggSig := v\<rparr>) h pubkeys x i = write_loop E h pubkeys x i"
proof (induction "len h pubkeys - i" arbitrary: i x)
  case 0
  then show ?case
    by (subst write_loop.simps, subst (2) write_loop.simps) simp
next
  case (Suc d)
  then have "\<And>y. write_loop (E\<lparr>verifyAggSig := v\<rparr>) h pubkeys y (Suc i)
      = write_loop E h pubkeys y (Suc i)"
    by (intro Suc.hyps(1)) simp
  then show ?case
    by (subst write_loop.simps, subst (2) write_loop.simps) simp
qed

lemma read_loop_verifier:
  "read_loop (E\<lparr>verifyAggSig := v\<rparr>) h pubkeys x t i = read_loop E h pubkeys x t i"
proof (induction "len h pubkeys - i" arbitrary: i x t)
  case 0
  then show ?case
    by (subst read_loop.simps, subst (2) read_loop.simps) simp
next
  case (Suc d)
  then have "\<And>y u. read_loop (E\<lparr>verifyAggSig := v\<rparr>) h pubkeys y u (Suc i)
      = read_loop E h pubkeys y u (Suc i)"
    by (intro Suc.hyps(1)) simp
  then show ?case
    by (subst read_loop.simps, subst (2) read_loop.simps) simp
qed

lemma scale_keys_verifier:
  "scale_keys (E\<lparr>verifyAggSig := v\<rparr>) t pubkeys dst h i = scale_keys E t pubkeys dst h i"
proof (induction E t pubkeys dst h i rule: scale_keys.induct)
  case (1 E t pubkeys dst h i)
  show ?case
    using "1.IH"
    by (subst scale_keys.simps, subst (2) scale_keys.simps)
      (auto intro!: Option.bind_cong)
qed

lemma hash_verifier:
  "hashPubKeysToExponents (E\<lparr>verifyAggSig := v\<rparr>) h pubkeys = hashPubKeysToExponents E h pubkeys"
proof -
  have w: "write_loop (E\<lparr>verifyAggSig := v\<rparr>) h pubkeys = write_loop E h pubkeys"
    by (intro ext) (rule write_loop_verifier)
  have r: "read_loop (E\<lparr>verifyAggSig := v\<rparr>) h pubkeys = read_loop E h pubkeys"
    by (intro ext) (rule read_loop_verifier)
  show ?thesis
    by (simp add: hashPubKeysToExponents_def w r)
qed

lemma verify_aggregate_verifier:
  "VerifyAggregateSignatureWithHAE
       (E\<lparr>verifyAggSig := \<lambda>c a ks ms d. d \<and> verifyAggSig E c a ks ms d\<rparr>)
       curve aggsig pubkeys msgs m
     = VerifyAggregateSignatureWithHAE E curve aggsig pubkeys msgs m"
proof -
  have s: "\<And>v t dst h. scale_keys (E\<lparr>verifyAggSig := v\<rparr>) t pubkeys dst h 0
      = scale_keys E t pubkeys dst h 0"
    by (rule scale_keys_verifier)
  show ?thesis
    by (simp add: VerifyAggregateSignatureWithHAE_def hash_verifier s split_beta)
qed

section \<open>The small instance, evaluated\<close>

lemma arr_memory_of: "arr (g1 (memory_of ss ks)) 0 = map obj ss" "arr (g2 (memory_of ss ks)) 0 = map obj ks"
  "brk (g1 (memory_of ss ks)) = 1" "brk (g2 (memory_of ss ks)) = 1"
  by (simp_all add: memory_of_def heap_of_def)

lemma toy_NewXOF_2: "NewXOF toy (xofSize (length [2, 3 :: int])) [] = obj (toy_stream 32)"
  by (simp add: toy_def toy_NewXOF_def xofSize_def toy_stream_def)

lemma toy_exponents_2: "exponents toy (toy_stream 32) [2, 3] = [37, 38]"
  by code_simp


lemma length_many_keys: "length many_keys = 268435457"
  by (simp only: many_keys_def length_replicate)

lemma xofSize_many_keys: "xofSize (length many_keys) = 16"
  by (simp add: length_many_keys xofSize_def)

lemma toy_NewXOF_many_keys: "NewXOF toy (xofSize (length many_keys)) [] = obj (toy_stream 16)"
  by (simp add: xofSize_many_keys toy_def toy_NewXOF_def toy_stream_def)

lemma arr_heap_of: "arr (heap_of ps) 0 = map obj ps"
  by (simp add: heap_of_def)

lemma toy_absorb_remaining: "remaining (absorb toy x ks) = remaining x"
proof -
  have "remaining (foldl (\<lambda>y k. toy_Write y [of_int k]) x ks) = remaining x"
    by (induction ks arbitrary: x) (simp_all add: toy_Write_def)
  then show ?thesis by (simp add: absorb_def toy_def)
qed

lemma toy_second_chunk:
  "remaining y = 16 \<Longrightarrow> chunks toy y (Suc (Suc k)) ! 1 = replicate 16 0"
  by (simp add: toy_def toy_Read_def copy_into_def)

lemma SetBytes_zeros: "SetBytes (replicate n 0) = 0"
  unfolding SetBytes_def by (induction n) simp_all

lemma toy_second_exponent:
  assumes "remaining x = 16" and "length ks = Suc (Suc k)"
  shows "exponents toy x ks ! 1 = 0"
proof -
  have "chunks toy (absorb toy x ks) (Suc (Suc k)) ! 1 = replicate 16 0"
    using assms(1) by (intro toy_second_chunk) (simp add: toy_absorb_remaining)
  then show ?thesis
    using assms(2) by (simp add: exponents_def length_chunks SetBytes_zeros)
qed

lemma xofSize_exact: "16 * n < 2 ^ 32 \<Longrightarrow> unat (xofSize n) = 16 * n"
  unfolding xofSize_def by (subst unat_of_nat) simp

section \<open>Aggregation followed by verification\<close>

lemma points_map_obj: "points (map obj ps) = Some ps"
  by (induction ps) simp_all

lemma scaled_sigs_map: "scaled_sigs E ss es = map obj (map2 (Mul1 E) ss es)"
  by (simp add: scaled_sigs_def split_beta)

lemma scaled_keys_map: "scaled_keys E ks es = map obj (map2 (Mul2 E) ks es)"
  by (simp add: scaled_keys_def split_beta)

lemma pairing_equation:
  assumes bil: "bilinear P E"
    and n: "length ss = length ks" "length msgs = length ks" "length es = length ks"
    and valid: "\<forall>i. i < length ks \<longrightarrow> bls_valid P (ss ! i) (ks ! i) (msgs ! i)"
  shows "Pair P (G1sum P (map2 (Mul1 E) ss es)) (G2gen P)
     = GTprod P (map2 (\<lambda>k m. Pair P (HashToG1 P m) k) (map2 (Mul2 E) ks es) msgs)"
proof -
  have sum: "\<And>xs q. Pair P (G1sum P xs) q = GTprod P (map (\<lambda>s. Pair P s q) xs)"
    and mul1: "\<And>s e q. Pair P (Mul1 E s e) q = GTpow P (Pair P s q) e"
    and mul2: "\<And>s q e. Pair P s (Mul2 E q e) = GTpow P (Pair P s q) e"
    using bil by (simp_all add: bilinear_def)
  have "map (\<lambda>s. Pair P s (G2gen P)) (map2 (Mul1 E) ss es)
      = map2 (\<lambda>k m. Pair P (HashToG1 P m) k) (map2 (Mul2 E) ks es) msgs"
  proof (rule nth_equalityI)
    show "length (map (\<lambda>s. Pair P s (G2gen P)) (map2 (Mul1 E) ss es))
        = length (map2 (\<lambda>k m. Pair P (HashToG1 P m) k) (map2 (Mul2 E) ks es) msgs)"
      using n by simp
  next
    fix i
    assume "i < length (map (\<lambda>s. Pair P s (G2gen P)) (map2 (Mul1 E) ss es))"
    then have i: "i < length ks" using n by simp
    then have "Pair P (ss ! i) (G2gen P) = Pair P (HashToG1 P (msgs ! i)) (ks ! i)"
      using valid by (simp add: bls_valid_def)
    then show "map (\<lambda>s. Pair P s (G2gen P)) (map2 (Mul1 E) ss es) ! i
        = map2 (\<lambda>k m. Pair P (HashToG1 P m) k) (map2 (Mul2 E) ks es) msgs ! i"
      using i n by (simp add: mul1 mul2)
  qed
  then show ?thesis by (simp add: sum)
qed

lemma roundtrip:
  assumes bil: "bilinear P E"
    and ss: "arr (g1 m) sigs = map obj ss" and ks: "arr (g2 m) pubkeys = map obj ks"
    and n: "length ss = length ks" "length msgs = length ks"
    and al: "sigs < brk (g1 m)" "pubkeys < brk (g2 m)"
    and x0: "NewXOF E (xofSize (length ks)) [] = obj x0"
    and valid: "\<forall>i. i < length ks \<longrightarrow> bls_valid P (ss ! i) (ks ! i) (msgs ! i)"
  shows "aggregate_then_verify E curve sigs pubkeys msgs m = Some True"
proof -
  let ?es = "exponents E x0 ks"
  let ?m1 = "m\<lparr>g1 := (g1 m)\<lparr>arr := (arr (g1 m))(brk (g1 m) := scaled_sigs E ss ?es),
                         brk := Suc (brk (g1 m))\<rparr>\<rparr>"
  let ?agg = "AggregateG1 E (scaled_sigs E ss ?es)"
  have es: "length ?es = length ks" by (rule length_exponents)
  have a: "AggregateSignaturesWithHAE E sigs pubkeys m = Some (?agg, ?m1)"
    by (rule aggregate_result [OF ss ks n(1) al(1) x0])
  have ks1: "arr (g2 ?m1) pubkeys = map obj ks" and al1: "pubkeys < brk (g2 ?m1)"
    using ks al by simp_all
  have v: "returned (VerifyAggregateSignatureWithHAE E curve ?agg pubkeys msgs ?m1)
      = Some (verifyAggSig E curve ?agg (scaled_keys E ks ?es) msgs True)"
    using verify_aggregate_result [OF ks1 al1 x0, of curve ?agg msgs] by (simp add: returned_def)
  have "\<And>xs. AggregateG1 E (map obj xs) = obj (G1sum P xs)"
    using bil by (simp add: bilinear_def)
  then have agg: "?agg = obj (G1sum P (map2 (Mul1 E) ss ?es))"
    by (simp only: scaled_sigs_map)
  have pts: "points (scaled_keys E ks ?es) = Some (map2 (Mul2 E) ks ?es)"
    by (simp only: scaled_keys_map points_map_obj)
  have "verifyAggSig E curve ?agg (scaled_keys E ks ?es) msgs True
      = verifyAggSig_spec P ?agg (scaled_keys E ks ?es) msgs True"
    using bil by (simp add: bilinear_def)
  also have "\<dots>"
    using pairing_equation [OF bil n es valid] n es
    by (simp add: verifyAggSig_spec_def agg pts)
  finally have "verifyAggSig E curve ?agg (scaled_keys E ks ?es) msgs True" .
  with a v show ?thesis
    by (auto simp: aggregate_then_verify_def returned_def)
qed

lemma sum_list_scaled: "sum_list (map (\<lambda>s. s * q) ss) = sum_list ss * (q :: int)"
  by (induction ss) (simp_all add: algebra_simps)

lemma toy_bilinear: "bilinear toy_pairing toy"
  by (simp add: bilinear_def toy_def toy_pairing_def points_map_obj sum_list_scaled)

section \<open>Exponent derivation\<close>

text \<open>
  What the derivation returns for a key sequence of any length \<open>n\<close>, once the stream
  exists: exactly \<open>n\<close> exponents, exponent \<open>i\<close> being the big-endian value of the 16-byte
  buffer filled by the \<open>i\<close>-th read of the stream that was fed the encodings of key 0 to
  key \<open>n - 1\<close> in order and nothing else, and lying in \<open>[0, 2 ^ 128)\<close>. The stream is
  seeded with exactly \<open>16 * n\<close> when \<open>16 * n < 2 ^ 32\<close>.
\<close>

theorem exponents_from_stream:
  assumes "arr h pubkeys = map obj ks" and "NewXOF E (xofSize (length ks)) [] = obj x0"
  shows "hashPubKeysToExponents E h pubkeys = Some (map obj (exponents E x0 ks)) \<and>
         length (exponents E x0 ks) = length ks \<and>
         (\<forall>i. i < length ks \<longrightarrow>
            exponents E x0 ks ! i = SetBytes (chunks E (absorb E x0 ks) (length ks) ! i) \<and>
            length (chunks E (absorb E x0 ks) (length ks) ! i) = 16 \<and>
            0 \<le> exponents E x0 ks ! i \<and> exponents E x0 ks ! i < 2 ^ 128) \<and>
         (16 * length ks < 2 ^ 32 \<longrightarrow> unat (xofSize (length ks)) = 16 * length ks)"
proof -
  have idx: "exponents E x0 ks ! i = SetBytes (chunks E (absorb E x0 ks) (length ks) ! i) \<and>
        length (chunks E (absorb E x0 ks) (length ks) ! i) = 16 \<and>
        0 \<le> exponents E x0 ks ! i \<and> exponents E x0 ks ! i < 2 ^ 128"
    if "i < length ks" for i
  proof -
    have "exponents E x0 ks ! i \<in> set (exponents E x0 ks)"
      using that by (simp add: length_exponents)
    moreover have "chunks E (absorb E x0 ks) (length ks) ! i
        \<in> set (chunks E (absorb E x0 ks) (length ks))"
      using that by (simp add: length_chunks)
    ultimately show ?thesis
      using that exponents_range [of "exponents E x0 ks ! i" E x0 ks]
        chunks_16 [of "chunks E (absorb E x0 ks) (length ks) ! i" E "absorb E x0 ks" "length ks"]
      by (simp add: exponents_def length_chunks)
  qed
  have len: "length (exponents E x0 ks) = length ks"
    by (rule length_exponents)
  show ?thesis
    using xofSize_exact [of "length ks"] hash_exponents [OF assms] len idx
    by blast
qed

theorem exponents_from_stream_two_keys:
  "hashPubKeysToExponents toy (heap_of [2, 3]) 0 = Some [obj 37, obj 38] \<and>
   unat (xofSize (length [2, 3 :: int])) = 32 \<and>
   chunks toy (absorb toy (toy_stream 32) [2, 3]) 2
     = [[0, 0, 0, 0, 0, 0, 0, 0, 0, 0, 0, 0, 0, 0, 0, 37],
        [0, 0, 0, 0, 0, 0, 0, 0, 0, 0, 0, 0, 0, 0, 0, 38]]"
proof -
  have h1: "arr (heap_of [2, 3 :: int]) 0 = map obj [2, 3]"
    by (simp add: heap_of_def)
  have c: "chunks toy (absorb toy (toy_stream 32) [2, 3]) 2
     = [[0, 0, 0, 0, 0, 0, 0, 0, 0, 0, 0, 0, 0, 0, 0, 37],
        [0, 0, 0, 0, 0, 0, 0, 0, 0, 0, 0, 0, 0, 0, 0, 38]]"
    by code_simp
  from exponents_from_stream [OF h1 toy_NewXOF_2] c
  show ?thesis by (simp add: toy_exponents_2)
qed

text \<open>
  C1: for every sequence of \<open>n\<close> keys (\<open>n \<ge> 1\<close>) the stream is seeded to produce exactly
  \<open>16 * n\<close> bytes, and exponent \<open>i\<close> is chunk \<open>i\<close> of its output. The code sizes the stream
  for \<open>16 * n\<close> bytes and reads 16 bytes per key, but the size it passes is
  \<^verbatim>\<open>uint32(16*len(pubkeys))\<close>, with no guard on the length. For \<open>2 ^ 28 + 1\<close> keys the
  product is \<open>2 ^ 32 + 16\<close> and the stream is seeded for 16 bytes. The result of
  \<^verbatim>\<open>hashFunc.Read\<close> is ignored, so once the stream is exhausted the buffer stays as
  \<^verbatim>\<open>make\<close> left it: in the small instance, whose stream delivers no more bytes than it
  was seeded for, the second exponent is 0.
\<close>

theorem C1_seed_wraps:
  "length many_keys = 268435457 \<and> unat (xofSize (length many_keys)) = 16 \<and>
   hashPubKeysToExponents toy (heap_of many_keys) 0
     = Some (map obj (exponents toy (toy_stream 16) many_keys)) \<and>
   exponents toy (toy_stream 16) many_keys ! 1 = 0"
proof -
  have "length many_keys = Suc (Suc 268435455)"
    by (simp add: length_many_keys)
  then have e: "exponents toy (toy_stream 16) many_keys ! 1 = 0"
    by (intro toy_second_exponent) (simp_all add: toy_stream_def)
  have h: "hashPubKeysToExponents toy (heap_of many_keys) 0
      = Some (map obj (exponents toy (toy_stream 16) many_keys))"
    by (rule hash_exponents [OF arr_heap_of toy_NewXOF_many_keys])
  have u: "unat (xofSize (length many_keys)) = 16"
    by (simp only: xofSize_many_keys) simp
  show ?thesis
    using length_many_keys u h e by (intro conjI)
qed

section \<open>Aggregation followed by verification of distinct messages\<close>

text \<open>
  C2: for signer keys \<open>ks\<close>, messages \<open>msgs\<close> and signatures \<open>ss\<close> of the same length,
  each signature valid under plain BLS for its key and message, verifying the aggregate
  that \<^verbatim>\<open>AggregateSignaturesWithHAE\<close> produced, with the same keys in the same order,
  returns true. The collaborators are assumed bilinear, and \<^verbatim>\<open>verifyAggSig\<close> is the
  pairing check of the specification. The theorem needs neither \<open>n \<ge> 1\<close> nor distinct
  messages.
\<close>

theorem C2_round_trip:
  assumes "bilinear P E"
    and "arr (g1 m) sigs = map obj ss" and "arr (g2 m) pubkeys = map obj ks"
    and "length ss = length ks" and "length msgs = length ks"
    and "sigs < brk (g1 m)" and "pubkeys < brk (g2 m)"
    and "NewXOF E (xofSize (length ks)) [] = obj x0"
    and "\<forall>i. i < length ks \<longrightarrow> bls_valid P (ss ! i) (ks ! i) (msgs ! i)"
  shows "aggregate_then_verify E curve sigs pubkeys msgs m = Some True"
  using assms by (rule roundtrip)

theorem C2_round_trip_witness:
  "bls_valid toy_pairing 4 2 [1] \<and> bls_valid toy_pairing 9 3 [2] \<and>
   aggregate_then_verify toy () 0 0 [[1], [2]] (memory_of [4, 9] [2, 3]) = Some True"
proof -
  let ?m = "memory_of [4, 9 :: int] [2, 3 :: int]"
  have v: "bls_valid toy_pairing 4 2 [1]" "bls_valid toy_pairing 9 3 [2]"
    by (simp_all add: bls_valid_def toy_pairing_def SetBytes_def)
  then have valid: "\<forall>i. i < length [2, 3 :: int] \<longrightarrow>
      bls_valid toy_pairing ([4, 9] ! i) ([2, 3] ! i) ([[1], [2]] ! i)"
    by (auto simp: less_Suc_eq)
  have h1: "arr (g1 ?m) 0 = map obj [4, 9]" and h2: "arr (g2 ?m) 0 = map obj [2, 3]"
    and h3: "length [4, 9 :: int] = length [2, 3 :: int]"
    and h4: "length [[1], [2 :: byte]] = length [2, 3 :: int]"
    and h5: "0 < brk (g1 ?m)" and h6: "0 < brk (g2 ?m)"
    by (simp_all add: arr_memory_of)
  from C2_round_trip [OF toy_bilinear h1 h2 h3 h4 h5 h6 toy_NewXOF_2 valid, of "()"] v
  show ?thesis by simp
qed

section \<open>Verification of a shared message\<close>

text \<open>
  C3: the shared-message verification leaves the caller's key sequence unchanged. The
  code does not: \<^verbatim>\<open>VerifyMultiSignatureWithHAE\<close> assigns \<^verbatim>\<open>pubkeys[i] = pubkeys[i].Mul(t[i])\<close>
  in the caller's array, where \<^verbatim>\<open>VerifyAggregateSignatureWithHAE\<close> allocates \<^verbatim>\<open>newkeys\<close>.
  In the small instance, two signers with keys 2 and 3 sign the message \<open>[1]\<close>; the
  aggregate is 376. The first verification returns true and leaves the scaled keys 74
  and 114 in the caller's array; verifying the same aggregate again with the same slice
  returns false.
\<close>

theorem C3_verify_multi_overwrites_keys:
  "returned (VerifyMultiSignatureWithHAE toy () (obj 376) 0 [1] (memory_of [4, 6] [2, 3]))
     = Some True \<and>
   keys_after 0 (VerifyMultiSignatureWithHAE toy () (obj 376) 0 [1] (memory_of [4, 6] [2, 3]))
     = Some [obj 74, obj 114] \<and>
   verify_multi_twice toy () (obj 376) 0 [1] (memory_of [4, 6] [2, 3]) = Some (True, False)"
proof -
  let ?m = "memory_of [4, 6 :: int] [2, 3 :: int]"
  let ?m1 = "?m\<lparr>g2 := (g2 ?m)\<lparr>arr := (arr (g2 ?m))(0 := [obj 74, obj 114])\<rparr>\<rparr>"
  have h1: "arr (g2 ?m) 0 = map obj [2, 3]"
    by (simp add: arr_memory_of)
  have sk: "scaled_keys toy [2, 3] [37, 38] = [obj 74, obj 114]"
    by code_simp
  have v1: "VerifyMultiSignature toy () (obj 376) [obj 74, obj 114] [1]"
    by code_simp
  have c1: "VerifyMultiSignatureWithHAE toy () (obj 376) 0 [1] ?m = Some (True, ?m1)"
    using verify_multi_result [OF h1 toy_NewXOF_2, of "()" "obj 376" "[1]"] v1
    by (simp add: toy_exponents_2 sk)
  have h2: "arr (g2 ?m1) 0 = map obj [74, 114]"
    by simp
  have x2: "NewXOF toy (xofSize (length [74, 114 :: int])) [] = obj (toy_stream 32)"
    by (simp add: toy_def toy_NewXOF_def xofSize_def toy_stream_def)
  have e2: "exponents toy (toy_stream 32) [74, 114] = [220, 221]"
    by code_simp
  have sk2: "scaled_keys toy [74, 114] [220, 221] = [obj 16280, obj 25194]"
    by code_simp
  have v2: "\<not> VerifyMultiSignature toy () (obj 376) [obj 16280, obj 25194] [1]"
    by code_simp
  have c2: "returned (VerifyMultiSignatureWithHAE toy () (obj 376) 0 [1] ?m1) = Some False"
    using verify_multi_result [OF h2 x2, of "()" "obj 376" "[1]"] v2
    by (simp add: e2 sk2 returned_def)
  show ?thesis
    using c1 c2
    by (auto simp: returned_def keys_after_def verify_multi_twice_def)
qed

section \<open>Aggregation on sequences of different lengths\<close>

text \<open>
  C4, as stated: when \<^verbatim>\<open>len(signatures) != len(pubkeys)\<close>, aggregation fails with an
  explicit \<^verbatim>\<open>LengthMismatch\<close> error. \<^verbatim>\<open>AggregateSignaturesWithHAE\<close> has one result, a
  \<^verbatim>\<open>Point1\<close>, and no error result: on a mismatch it executes \<^verbatim>\<open>return nil\<close>. With no
  signature and one key the call returns normally, and what it returns is the nil point.
\<close>

theorem C4_length_mismatch_returns_nil_counterexample:
  "AggregateSignaturesWithHAE toy 0 0 (memory_of [] [7]) = Some (nil, memory_of [] [7])"
  by (rule aggregate_mismatch) (simp add: memory_of_def len_heap_of)

text \<open>
  C4, amended: when the two lengths differ, \<^verbatim>\<open>AggregateSignaturesWithHAE\<close> returns the
  nil point at once. It does not panic; the result is the same for all collaborators (no
  exponent is derived, no signature is scaled and \<^verbatim>\<open>AggregateG1\<close> is not called); and the
  memory after the call is the memory before it (nothing is allocated or written). The
  function has no error value: nil is its only sign of the mismatch.
\<close>

theorem C4_length_mismatch_returns_nil:
  "len (g1 m) sigs \<noteq> len (g2 m) pubkeys \<Longrightarrow>
     AggregateSignaturesWithHAE E sigs pubkeys m = Some (nil, m)"
  by (rule aggregate_mismatch)

theorem C4_length_mismatch_returns_nil_witness:
  "len (g1 (memory_of [4, 9] [2 :: int])) 0 \<noteq> len (g2 (memory_of [4, 9 :: int] [2])) 0 \<and>
   AggregateSignaturesWithHAE toy 0 0 (memory_of [4, 9] [2]) = Some (nil, memory_of [4, 9] [2])"
proof -
  have h: "len (g1 (memory_of [4, 9] [2 :: int])) 0 \<noteq> len (g2 (memory_of [4, 9 :: int] [2])) 0"
    by (simp add: memory_of_def len_heap_of)
  from h C4_length_mismatch_returns_nil [OF h, of toy] show ?thesis by simp
qed

section \<open>Aggregation on sequences of equal length\<close>

text \<open>
  C5: for \<open>n\<close> signatures \<open>ss\<close> and \<open>n\<close> public keys \<open>ks\<close> in memory,
  \<^verbatim>\<open>AggregateSignaturesWithHAE\<close> returns \<^verbatim>\<open>AggregateG1\<close> (the group sum) of the signatures
  scaled index by index by the exponents, where the exponents are the ones
  \<^verbatim>\<open>hashPubKeysToExponents\<close> derives from the keys. The call has no effect on its inputs:
  the key heap is unchanged, and so is every signature array that was allocated before
  the call (the scaled signatures go to a new array).
\<close>

theorem C5_aggregate_is_scaled_sum:
  assumes "arr (g1 m) sigs = map obj ss" and "arr (g2 m) pubkeys = map obj ks"
    and "length ss = length ks" and "sigs < brk (g1 m)"
    and "NewXOF E (xofSize (length ks)) [] = obj x0"
  shows "\<exists>m'. AggregateSignaturesWithHAE E sigs pubkeys m
           = Some (AggregateG1 E (scaled_sigs E ss (exponents E x0 ks)), m') \<and>
         g2 m' = g2 m \<and> (\<forall>a. a < brk (g1 m) \<longrightarrow> arr (g1 m') a = arr (g1 m) a) \<and>
         hashPubKeysToExponents E (g2 m) pubkeys = Some (map obj (exponents E x0 ks))"
  using aggregate_result [OF assms] hash_exponents [OF assms(2) assms(5)] by simp

theorem C5_aggregate_is_scaled_sum_witness:
  "returned (AggregateSignaturesWithHAE toy 0 0 (memory_of [4, 9] [2, 3])) = Some (obj 490) \<and>
   sigs_after 0 (AggregateSignaturesWithHAE toy 0 0 (memory_of [4, 9] [2, 3])) = Some [obj 4, obj 9] \<and>
   keys_after 0 (AggregateSignaturesWithHAE toy 0 0 (memory_of [4, 9] [2, 3])) = Some [obj 2, obj 3]"
proof -
  let ?m = "memory_of [4, 9 :: int] [2, 3 :: int]"
  have agg: "AggregateG1 toy (scaled_sigs toy [4, 9] [37, 38]) = obj 490"
    by code_simp
  have h1: "arr (g1 ?m) 0 = map obj [4, 9]" and h2: "arr (g2 ?m) 0 = map obj [2, 3]"
    and h3: "length [4, 9 :: int] = length [2, 3 :: int]" and h4: "0 < brk (g1 ?m)"
    by (simp_all add: arr_memory_of)
  from C5_aggregate_is_scaled_sum [OF h1 h2 h3 h4 toy_NewXOF_2]
  show ?thesis
    by (auto simp: arr_memory_of toy_exponents_2 agg returned_def sigs_after_def keys_after_def)
qed

section \<open>Exponent derivation on an empty key sequence\<close>

text \<open>
  C6, as stated: on a zero-length public-key sequence the derivation does not return an
  empty exponent sequence as a success result. The function has one result, the slice of
  exponents, and no error result. On the empty key sequence both loops run zero times and
  the slice made for zero keys comes back: the call returns normally with the empty
  sequence. The statement fails at the empty sequence of the small instance.
\<close>

theorem C6_empty_input_returns_empty_counterexample:
  "hashPubKeysToExponents toy (heap_of ([] :: int list)) 0 = Some []"
  by (rule hash_empty) (simp add: len_heap_of)

text \<open>
  C6, amended: on a zero-length public-key sequence the derivation returns the empty
  exponent sequence as an ordinary result, whatever the hash stream does (even when
  creating the stream fails); it never rejects the input and never signals an
  \<^verbatim>\<open>EmptyInput\<close> error.
\<close>

theorem C6_empty_input_returns_empty:
  "len h pubkeys = 0 \<Longrightarrow> hashPubKeysToExponents E h pubkeys = Some []"
  by (rule hash_empty)

theorem C6_empty_input_returns_empty_witness:
  "len (heap_of ([] :: int list)) 0 = 0 \<and>
   hashPubKeysToExponents toy (heap_of ([] :: int list)) 0 = Some []"
  using C6_empty_input_returns_empty [of "heap_of ([] :: int list)" 0 toy]
  by (simp add: len_heap_of)

section \<open>Determinism of the derivation\<close>

text \<open>
  C7: the derivation is deterministic and free of process-wide state. The exponents
  depend on the ordered contents of the key sequence only: two calls on equal key
  sequences return the same exponents, wherever the sequences are stored and whatever
  else the two memories hold. The function reads the key array and writes no array of
  points; the stream it creates is local to the call.
\<close>

theorem C7_exponents_depend_on_keys_only:
  "arr h pubkeys = arr h' pubkeys' \<Longrightarrow>
     hashPubKeysToExponents E h pubkeys = hashPubKeysToExponents E h' pubkeys'"
  by (rule hash_cong)

theorem C7_exponents_depend_on_keys_only_witness:
  "arr (heap_of [2, 3 :: int]) 0 = arr \<lparr>arr = (\<lambda>a. [obj 9]) (5 := [obj 2, obj 3]), brk = 8\<rparr> 5 \<and>
   hashPubKeysToExponents toy (heap_of [2, 3]) 0
     = hashPubKeysToExponents toy \<lparr>arr = (\<lambda>a. [obj 9]) (5 := [obj 2, obj 3]), brk = 8\<rparr> 5 \<and>
   hashPubKeysToExponents toy (heap_of [2, 3]) 0 = Some [obj 37, obj 38]"
proof -
  have h: "arr (heap_of [2, 3 :: int]) 0
      = arr \<lparr>arr = (\<lambda>a. [obj 9]) (5 := [obj 2, obj 3]), brk = 8\<rparr> 5"
    by (simp add: heap_of_def)
  have v: "hashPubKeysToExponents toy (heap_of [2, 3]) 0 = Some [obj 37, obj 38]"
    by code_simp
  from h v C7_exponents_depend_on_keys_only [OF h, of toy] show ?thesis by simp
qed

section \<open>Verification of distinct messages\<close>

text \<open>
  C8: \<^verbatim>\<open>VerifyAggregateSignatureWithHAE\<close> returns exactly the boolean that \<^verbatim>\<open>verifyAggSig\<close>
  gives for the aggregate signature, the keys scaled index by index by the exponents that
  \<^verbatim>\<open>hashPubKeysToExponents\<close> derives from them, and the messages. The call returns
  normally with that boolean: a failed verification is the result \<open>False\<close>, not an error.
\<close>

theorem C8_verify_aggregate_delegates:
  assumes "arr (g2 m) pubkeys = map obj ks" and "pubkeys < brk (g2 m)"
    and "NewXOF E (xofSize (length ks)) [] = obj x0"
  shows "returned (VerifyAggregateSignatureWithHAE E curve aggsig pubkeys msgs m)
           = Some (verifyAggSig E curve aggsig (scaled_keys E ks (exponents E x0 ks)) msgs True) \<and>
         hashPubKeysToExponents E (g2 m) pubkeys = Some (map obj (exponents E x0 ks))"
  using verify_aggregate_result [OF assms] hash_exponents [OF assms(1) assms(3)]
  by (simp add: returned_def)

theorem C8_verify_aggregate_delegates_witness:
  "returned (VerifyAggregateSignatureWithHAE toy () (obj 490) 0 [[1], [2]] (memory_of [4, 9] [2, 3]))
     = Some True \<and>
   returned (VerifyAggregateSignatureWithHAE toy () (obj 491) 0 [[1], [2]] (memory_of [4, 9] [2, 3]))
     = Some False"
proof -
  let ?m = "memory_of [4, 9 :: int] [2, 3 :: int]"
  have h1: "arr (g2 ?m) 0 = map obj [2, 3]" and h2: "0 < brk (g2 ?m)"
    by (simp_all add: arr_memory_of)
  have good: "verifyAggSig toy () (obj 490) (scaled_keys toy [2, 3] [37, 38]) [[1], [2]] True"
    by code_simp
  have bad: "\<not> verifyAggSig toy () (obj 491) (scaled_keys toy [2, 3] [37, 38]) [[1], [2]] True"
    by code_simp
  from C8_verify_aggregate_delegates [OF h1 h2 toy_NewXOF_2, of "()" "obj 490" "[[1], [2]]"]
    C8_verify_aggregate_delegates [OF h1 h2 toy_NewXOF_2, of "()" "obj 491" "[[1], [2]]"]
    good bad
  show ?thesis by (simp add: toy_exponents_2)
qed

text \<open>
  C9: \<^verbatim>\<open>VerifyAggregateSignatureWithHAE\<close> leaves the caller's key sequence unchanged.
  Whenever the call returns, the caller's array holds what it held before, and so does
  every array allocated before the call; the call allocates one new array (the scaled
  keys are written there) and does not touch the signatures.
\<close>

theorem C9_verify_aggregate_keeps_keys:
  assumes "VerifyAggregateSignatureWithHAE E curve aggsig pubkeys msgs m = Some (b, m')"
    and "pubkeys < brk (g2 m)"
  shows "arr (g2 m') pubkeys = arr (g2 m) pubkeys \<and>
         (\<forall>a. a < brk (g2 m) \<longrightarrow> arr (g2 m') a = arr (g2 m) a) \<and>
         brk (g2 m') = Suc (brk (g2 m)) \<and> g1 m' = g1 m"
  using verify_aggregate_frame [OF assms(1)] assms(2) by simp

theorem C9_verify_aggregate_keeps_keys_witness:
  "returned (VerifyAggregateSignatureWithHAE toy () (obj 490) 0 [[1], [2]] (memory_of [4, 9] [2, 3]))
     = Some True \<and>
   keys_after 0 (VerifyAggregateSignatureWithHAE toy () (obj 490) 0 [[1], [2]] (memory_of [4, 9] [2, 3]))
     = Some [obj 2, obj 3] \<and>
   keys_after 1 (VerifyAggregateSignatureWithHAE toy () (obj 490) 0 [[1], [2]] (memory_of [4, 9] [2, 3]))
     = Some [obj 74, obj 114]"
proof -
  let ?m = "memory_of [4, 9 :: int] [2, 3 :: int]"
  let ?c = "VerifyAggregateSignatureWithHAE toy () (obj 490) 0 [[1], [2]] ?m"
  have h1: "arr (g2 ?m) 0 = map obj [2, 3]" and h2: "0 < brk (g2 ?m)"
    by (simp_all add: arr_memory_of)
  have good: "verifyAggSig toy () (obj 490) (scaled_keys toy [2, 3] [37, 38]) [[1], [2]] True"
    by code_simp
  have sk: "scaled_keys toy [2, 3] [37, 38] = [obj 74, obj 114]"
    by code_simp
  have c: "?c = Some (True, ?m\<lparr>g2 := (g2 ?m)\<lparr>arr := (arr (g2 ?m))(brk (g2 ?m) := [obj 74, obj 114]),
                         brk := Suc (brk (g2 ?m))\<rparr>\<rparr>)"
    using verify_aggregate_result [OF h1 h2 toy_NewXOF_2, of "()" "obj 490" "[[1], [2]]"] good
    by (simp add: toy_exponents_2 sk)
  from C9_verify_aggregate_keeps_keys [OF c h2] c
  show ?thesis
    by (simp add: returned_def keys_after_def arr_memory_of)
qed

text \<open>
  C10: \<^verbatim>\<open>VerifyAggregateSignatureWithHAE\<close> calls \<^verbatim>\<open>verifyAggSig\<close> with its last argument
  \<^verbatim>\<open>true\<close>. A verifier that rejects whenever that argument is false gives the same
  result as the verifier itself, and the boolean returned is the verifier's answer, with
  the flag true, on the newly allocated array of keys. So the operation never rejects an
  aggregate because two messages are equal.
\<close>

theorem C10_verify_aggregate_permits_duplicates:
  "VerifyAggregateSignatureWithHAE
       (E\<lparr>verifyAggSig := \<lambda>c a ks ms d. d \<and> verifyAggSig E c a ks ms d\<rparr>)
       curve aggsig pubkeys msgs m
     = VerifyAggregateSignatureWithHAE E curve aggsig pubkeys msgs m \<and>
   (VerifyAggregateSignatureWithHAE E curve aggsig pubkeys msgs m = Some (b, m') \<longrightarrow>
      b = verifyAggSig E curve aggsig (arr (g2 m') (brk (g2 m))) msgs True)"
  using verify_aggregate_verifier [of E curve aggsig pubkeys msgs m]
    verify_aggregate_frame [of E curve aggsig pubkeys msgs m b m']
  by simp

theorem C10_verify_aggregate_permits_duplicates_witness:
  "VerifyAggregateSignatureWithHAE toy () (obj 376) 0 [[1], [1]] (memory_of [4, 6] [2, 3])
     = Some (True, (memory_of [4, 6] [2, 3])
         \<lparr>g2 := (heap_of [2, 3])\<lparr>arr := (arr (heap_of [2, 3]))(1 := [obj 74, obj 114]), brk := 2\<rparr>\<rparr>) \<and>
   \<not> verifyAggSig toy () (obj 376) [obj 74, obj 114] [[1], [1]] False \<and>
   verifyAggSig toy () (obj 376) [obj 74, obj 114] [[1], [1]] True"
proof -
  let ?m = "memory_of [4, 6 :: int] [2, 3 :: int]"
  let ?m' = "?m\<lparr>g2 := (heap_of [2, 3])\<lparr>arr := (arr (heap_of [2, 3]))(1 := [obj 74, obj 114]), brk := 2\<rparr>\<rparr>"
  have h1: "arr (g2 ?m) 0 = map obj [2, 3]" and h2: "0 < brk (g2 ?m)"
    by (simp_all add: arr_memory_of)
  have t: "verifyAggSig toy () (obj 376) [obj 74, obj 114] [[1], [1]] True"
    by code_simp
  have f: "\<not> verifyAggSig toy () (obj 376) [obj 74, obj 114] [[1], [1]] False"
    by code_simp
  have sk: "scaled_keys toy [2, 3] [37, 38] = [obj 74, obj 114]"
    by code_simp
  have c: "VerifyAggregateSignatureWithHAE toy () (obj 376) 0 [[1], [1]] ?m = Some (True, ?m')"
    using verify_aggregate_result [OF h1 h2 toy_NewXOF_2, of "()" "obj 376" "[[1], [1]]"] t
    by (simp add: toy_exponents_2 sk memory_of_def heap_of_def)
  from C10_verify_aggregate_permits_duplicates [of toy "()" "obj 376" 0 "[[1], [1]]" ?m True ?m']
    c t f
  show ?thesis by simp
qed

end
